theory Spec2Isabelle
  imports Main "HOL-Library.Word"
begin

section \<open>Data model of the lock engine (locker.ts)\<close>

text \<open>
  JavaScript errors are values. A \<open>TypeError\<close> is what a call on \<open>null\<close> or on an
  undefined method raises; \<open>StoreError\<close> is an error raised by the store client.
\<close>

datatype js_error = TypeError string | StoreError string | Error string

fun message :: "js_error \<Rightarrow> string" where
  "message (TypeError m) = m"
| "message (StoreError m) = m"
| "message (Error m) = m"

datatype log_entry = LogError string | LogWarn string | LogInfo string

text \<open>
  The store client is a shared mutable object: the locker holds a reference to it and
  \<open>defineCommand\<close> mutates it. Client objects live in a heap indexed by address.
\<close>

record client_obj =
  status :: string
  lua_unlock :: bool

text \<open>An entry of \<open>lockMap\<close>: \<open>{ value, expire, time }\<close>.\<close>

record lock_entry =
  ent_value :: string
  ent_expire :: int
  ent_time :: int

record locker =
  lockMap :: "string \<rightharpoonup> lock_entry"
  key_prefix :: string
  client :: "nat option"

text \<open>
  Calls made on the store client API, in order. This is the observable interaction of the
  process with the store: connecting, registering the script, and the two commands.
\<close>

datatype store_event =
    Connect
  | Register nat
  | SetNX string string int
  | LuaUnlock string string

record world =
  redis :: "string \<rightharpoonup> string \<times> int"
  clients :: "nat \<Rightarrow> client_obj"
  logger :: "log_entry list"
  now :: int
  trace :: "store_event list"

text \<open>
  What the environment decides during one call of a locker method: the outcome of
  \<open>Store.getInstance(options).getConnection()\<close> if it is called (it throws, or returns
  null or a client with some status), whether \<open>client.defineCommand\<close> throws, the bytes
  \<open>crypto.randomBytes\<close> delivers, whether the store command fails (before or after the
  store executed it), how long the awaits take, by how much a timer overshoots, and what
  other processes and key expiry do to the store while this process sleeps.
\<close>

datatype conn_outcome = ConnThrows string | ConnReturns "(nat \<times> string) option"

datatype cmd_fault = NoFault | FaultBefore string | FaultAfter string

record env =
  conn :: conn_outcome
  define_err :: "string option"
  rnd :: "nat \<Rightarrow> 8 word"
  fault :: cmd_fault
  elapse :: nat
  jitter :: nat
  interfere :: "(string \<rightharpoonup> string \<times> int) \<Rightarrow> (string \<rightharpoonup> string \<times> int)"

type_synonym state = "locker \<times> world"

section \<open>The store primitives\<close>

text \<open>\<open>SET key value NX PX expire\<close>: replies \<open>OK\<close> when the key was absent, null otherwise.\<close>

definition redis_set_nx_px ::
  "string \<Rightarrow> string \<Rightarrow> int \<Rightarrow> (string \<rightharpoonup> string \<times> int) \<Rightarrow> string option \<times> (string \<rightharpoonup> string \<times> int)" where
  "redis_set_nx_px k v px r =
     (case r k of
        None \<Rightarrow> (Some ''OK'', r(k \<mapsto> (v, px)))
      | Some _ \<Rightarrow> (None, r))"

text \<open>
  The Lua script registered as \<open>lua_unlock\<close>, executed atomically by the store:
  \<^verbatim>\<open>
  local remote_value = redis.call("get",KEYS[1])
  if (not remote_value) then return 0
  elseif (remote_value == ARGV[1]) then return redis.call("del",KEYS[1])
  else return -1 end
  \<close>
\<close>

definition lua_unlock_script ::
  "string \<Rightarrow> string \<Rightarrow> (string \<rightharpoonup> string \<times> int) \<Rightarrow> int \<times> (string \<rightharpoonup> string \<times> int)" where
  "lua_unlock_script k a r =
     (case r k of
        None \<Rightarrow> (0, r)
      | Some (remote_value, _) \<Rightarrow>
          if remote_value = a then (1, r(k := None)) else (- 1, r))"

section \<open>Tokens\<close>

definition hexdigit :: "nat \<Rightarrow> char" where
  "hexdigit n = ''0123456789abcdef'' ! (n mod 16)"

definition hex_of_byte :: "8 word \<Rightarrow> string" where
  "hex_of_byte b = [hexdigit (unat b div 16), hexdigit (unat b mod 16)]"

definition toString_hex :: "8 word list \<Rightarrow> string" where
  "toString_hex bs = concat (map hex_of_byte bs)"

definition randomBytes :: "(nat \<Rightarrow> 8 word) \<Rightarrow> nat \<Rightarrow> 8 word list" where
  "randomBytes r n = map r [0..<n]"

section \<open>Locker.defineCommand\<close>

text \<open>
  Logging appends to the log, a call on the store client appends to the trace, and an
  await lets the clock advance.
\<close>

definition say :: "log_entry \<Rightarrow> world \<Rightarrow> world" where
  "say l w = w\<lparr>logger := logger w @ [l]\<rparr>"

definition did :: "store_event \<Rightarrow> world \<Rightarrow> world" where
  "did ev w = w\<lparr>trace := trace w @ [ev]\<rparr>"

definition tick :: "nat \<Rightarrow> world \<Rightarrow> world" where
  "tick d w = w\<lparr>now := now w + int d\<rparr>"

definition conn_failed :: "string \<Rightarrow> log_entry" where
  "conn_failed m = LogError (''Redis connection failed. at ScheduleLocker.InitRedisConn. '' @ m)"

text \<open>
  \<^verbatim>\<open>
  try {
    if (!this.client || this.client.status !== 'ready') {
      const redisStore = Store.getInstance(this.options);
      this.client = await redisStore.getConnection();
      if (this.client && !this.client.lua_unlock) {
        this.client.defineCommand('lua_unlock', { numberOfKeys: 1, lua: ... });
      }
    }
    return this.client;
  } catch (e) { logger.Error(`Redis connection failed. ...`); return null; }
  \<close>
  \<open>Store\<close> and the client come from other packages: whether the connection attempt
  throws or what it returns is the environment's choice, and the client's own
  \<open>defineCommand\<close> either throws or installs the command \<open>lua_unlock\<close> on the client.
  A throw before the assignment leaves \<open>this.client\<close> as it was.
\<close>

definition defineCommand :: "env \<Rightarrow> state \<Rightarrow> nat option \<times> state" where
  "defineCommand e s =
     (case s of (L, w) \<Rightarrow>
        if client L = None \<or> status (clients w (the (client L))) \<noteq> ''ready'' then
          (case conn e of
             ConnThrows m \<Rightarrow> (None, L, say (conn_failed m) (did Connect w))
           | ConnReturns None \<Rightarrow> (None, L\<lparr>client := None\<rparr>, did Connect w)
           | ConnReturns (Some (a, st)) \<Rightarrow>
               let L1 = L\<lparr>client := Some a\<rparr>;
                   w0 = did Connect w;
                   w1 = w0\<lparr>clients := (clients w0)(a := (clients w0 a)\<lparr>status := st\<rparr>)\<rparr>
               in if lua_unlock (clients w1 a) then (Some a, L1, w1)
                  else (case define_err e of
                          Some m \<Rightarrow> (None, L1, say (conn_failed m) w1)
                        | None \<Rightarrow>
                            (Some a, L1,
                             did (Register a)
                               (w1\<lparr>clients := (clients w1)(a := (clients w1 a)\<lparr>lua_unlock := True\<rparr>)\<rparr>))))
        else (client L, L, w))"

section \<open>Locker.lock\<close>

text \<open>
  \<^verbatim>\<open>
  try {
    const client = await this.defineCommand();
    key = `${this.options.key_prefix}${key}`;
    const value = crypto.randomBytes(16).toString('hex');
    const result = await client.set(key, value, 'NX', 'PX', expire);
    if (result === null) { logger.Error('lock error: key already exists'); return false; }
    this.lockMap.set(key, { value, expire, time: Date.now() });
    return true;
  } catch (e) { logger.Error(e); return false; }
  \<close>
  \<open>expire\<close> defaults to 10000. A null client makes \<open>client.set\<close> raise a
  \<open>TypeError\<close> before anything is sent. A command sent on a client either completes, or
  fails before the store executed it, or fails after the store executed it (the reply is
  lost); in both failures the call raises and the \<open>catch\<close> returns \<open>false\<close>.
\<close>

definition null_call :: "string \<Rightarrow> js_error" where
  "null_call m =
     TypeError (''Cannot read properties of null (reading '' @ [CHR 0x27] @ m @ [CHR 0x27] @ '')'')"

definition lock :: "string \<Rightarrow> int option \<Rightarrow> env \<Rightarrow> state \<Rightarrow> bool \<times> state" where
  "lock key0 expire_opt e s =
     (let expire = (case expire_opt of None \<Rightarrow> 10000 | Some x \<Rightarrow> x) in
      case defineCommand e s of (c, L, w0) \<Rightarrow>
        let key = key_prefix L @ key0;
            val = toString_hex (randomBytes (rnd e) 16);
            w = tick (elapse e) w0
        in case c of
             None \<Rightarrow> (False, L, say (LogError (message (null_call ''set''))) w)
           | Some a \<Rightarrow>
               (case fault e of
                  FaultBefore m \<Rightarrow>
                    (False, L, say (LogError m) (did (SetNX key val expire) w))
                | FaultAfter m \<Rightarrow>
                    (False, L,
                     say (LogError m)
                       (did (SetNX key val expire)
                          (w\<lparr>redis := snd (redis_set_nx_px key val expire (redis w))\<rparr>)))
                | NoFault \<Rightarrow>
                    (case redis_set_nx_px key val expire (redis w) of
                       (None, r) \<Rightarrow>
                         (False, L,
                          say (LogError ''lock error: key already exists'')
                            (did (SetNX key val expire) (w\<lparr>redis := r\<rparr>)))
                     | (Some ok, r) \<Rightarrow>
                         (True,
                          L\<lparr>lockMap := (lockMap L)(key \<mapsto>
                               \<lparr>ent_value = val, ent_expire = expire, ent_time = now w\<rparr>)\<rparr>,
                          did (SetNX key val expire) (w\<lparr>redis := r\<rparr>)))))"

section \<open>Locker.unLock\<close>

text \<open>
  \<^verbatim>\<open>
  try {
    const client = await this.defineCommand();
    key = `${this.options.key_prefix}${key}`;
    if (!this.lockMap.has(key)) { return null; }
    const { value } = this.lockMap.get(key);
    await client.lua_unlock(key, value);
    this.lockMap.delete(key);
    return true;
  } catch (e) { logger.Error(e); return false; }
  \<close>
  The source returns \<open>null\<close>, \<open>true\<close> or \<open>false\<close>; \<open>None\<close> stands for \<open>null\<close>.
  Calling \<open>lua_unlock\<close> on a null client, or on a client on which the command was never
  defined, raises a \<open>TypeError\<close>.
\<close>

definition unLock :: "string \<Rightarrow> env \<Rightarrow> state \<Rightarrow> bool option \<times> state" where
  "unLock key0 e s =
     (case defineCommand e s of (c, L, w0) \<Rightarrow>
        let key = key_prefix L @ key0;
            w = tick (elapse e) w0
        in case lockMap L key of
             None \<Rightarrow> (None, L, w)
           | Some ent \<Rightarrow>
               (case c of
                  None \<Rightarrow> (Some False, L, say (LogError (message (null_call ''lua_unlock''))) w)
                | Some a \<Rightarrow>
                    if \<not> lua_unlock (clients w a) then
                      (Some False, L, say (LogError ''client.lua_unlock is not a function'') w)
                    else
                      (case fault e of
                         FaultBefore m \<Rightarrow>
                           (Some False, L,
                            say (LogError m) (did (LuaUnlock key (ent_value ent)) w))
                       | FaultAfter m \<Rightarrow>
                           (Some False, L,
                            say (LogError m)
                              (did (LuaUnlock key (ent_value ent))
                                 (w\<lparr>redis := snd (lua_unlock_script key (ent_value ent) (redis w))\<rparr>)))
                       | NoFault \<Rightarrow>
                           (Some True,
                            L\<lparr>lockMap := (lockMap L)(key := None)\<rparr>,
                            did (LuaUnlock key (ent_value ent))
                              (w\<lparr>redis := snd (lua_unlock_script key (ent_value ent) (redis w))\<rparr>)))))"

section \<open>Locker.waitLock\<close>

text \<open>
  \<open>delay(ms)\<close> is \<open>setTimeout\<close> wrapped in a promise. The runtime sets a timeout below
  1 or above 2147483647 to 1 millisecond. While the process sleeps the clock advances by
  that time plus the timer's overshoot, and other processes and key expiry act on the
  store.
\<close>

definition timer_ms :: "int \<Rightarrow> int" where
  "timer_ms ms = (if ms < 1 \<or> 2147483647 < ms then 1 else ms)"

definition delay :: "int \<Rightarrow> env \<Rightarrow> world \<Rightarrow> world" where
  "delay ms e w =
     w\<lparr>redis := interfere e (redis w), now := now w + timer_ms ms + int (jitter e)\<rparr>"

text \<open>
  The loop \<open>while ((Date.now() - start_time) < waitTime)\<close>. Each iteration consumes one
  environment from the list; \<open>None\<close> means the list ran out before the loop ended.
  Besides the boolean of the source, the model returns the sequence of attempts (each
  with the elapsed time read by the loop test before it, and its result) and sleeps the
  loop made.
\<close>

datatype poll_event = Attempt int bool | Sleep int

definition timed_out :: "state \<Rightarrow> state" where
  "timed_out s = (case s of (L, w) \<Rightarrow> (L, say (LogError ''waitLock timeout'') w))"

fun waitLock_loop ::
  "string \<Rightarrow> int option \<Rightarrow> int \<Rightarrow> int \<Rightarrow> int \<Rightarrow> env list \<Rightarrow> state
     \<Rightarrow> (bool \<times> poll_event list \<times> state) option" where
  "waitLock_loop key expire interval waitTime start_time [] s =
     (if now (snd s) - start_time < waitTime then None
      else Some (False, [], timed_out s))"
| "waitLock_loop key expire interval waitTime start_time (e # es) s =
     (if now (snd s) - start_time < waitTime then
        (case lock key expire e s of
           (True, s1) \<Rightarrow> Some (True, [Attempt (now (snd s) - start_time) True], s1)
         | (False, L1, w1) \<Rightarrow>
             map_option
               (\<lambda>(r, evs, s2).
                  (r, Attempt (now (snd s) - start_time) False # Sleep interval # evs, s2))
               (waitLock_loop key expire interval waitTime start_time es
                  (L1, delay interval e w1)))
      else Some (False, [], timed_out s))"

definition waitLock ::
  "string \<Rightarrow> int option \<Rightarrow> int option \<Rightarrow> int option \<Rightarrow> env list \<Rightarrow> state
     \<Rightarrow> (bool \<times> poll_event list \<times> state) option" where
  "waitLock key expire interval_opt waitTime_opt envs s =
     (let interval = (case interval_opt of None \<Rightarrow> 50 | Some x \<Rightarrow> x);
          waitTime = (case waitTime_opt of None \<Rightarrow> 15000 | Some x \<Rightarrow> x);
          start_time = now (snd s)
      in waitLock_loop key expire interval waitTime start_time envs s)"

text \<open>
  The state a polling run is in after the attempts with the given environments have each
  been made and followed by the sleep, as the loop body does when an attempt fails.
\<close>

fun after_failed :: "string \<Rightarrow> int option \<Rightarrow> int \<Rightarrow> env list \<Rightarrow> state \<Rightarrow> state" where
  "after_failed key expire interval [] s = s"
| "after_failed key expire interval (e # es) s =
     after_failed key expire interval es
       (case lock key expire e s of (r, L1, w1) \<Rightarrow> (L1, delay interval e w1))"

section \<open>The method installed by the SchedulerLock decorator\<close>

text \<open>
  The decorator's arguments as the closure sees them: \<open>name\<close> (given, or synthesized at
  decoration time), the decorated method's name, and the three optional numbers.
\<close>

record lock_args =
  name :: string
  methodName :: string
  lockTimeOut :: "int option"
  waitLockInterval :: "int option"
  waitLockTimeOut :: "int option"

text \<open>JavaScript truthiness of an optional number: \<open>undefined\<close> and \<open>0\<close> are falsy.\<close>

definition truthy :: "int option \<Rightarrow> bool" where
  "truthy v = (case v of None \<Rightarrow> False | Some n \<Rightarrow> n \<noteq> 0)"

definition not_executed :: "string \<Rightarrow> string \<Rightarrow> string" where
  "not_executed nm m =
     ''Cache lock '' @ [CHR 0x27] @ nm @ [CHR 0x27] @
     '' acquisition failed. The method '' @ m @ '' is not executed.''"

definition executed :: "string \<Rightarrow> string" where
  "executed nm = ''The locker '' @ [CHR 0x27] @ nm @ [CHR 0x27] @ '' executed.''"

text \<open>The calls the wrapper itself makes, in order.\<close>

datatype call_event = CallLock | CallWaitLock | CallValue | CallUnLock string

record wrap_env =
  lock_env :: env
  wait_envs :: "env list"
  unlock_env :: env

text \<open>
  The acquisition step of the wrapper:
  \<^verbatim>\<open>
  if (waitLockInterval || waitLockTimeOut) {
    lockerFlag = await lockerCls.waitLock(name, lockTimeOut, waitLockInterval, waitLockTimeOut)
                   .catch(...);
  } else {
    lockerFlag = await lockerCls.lock(name, lockTimeOut).catch(...);
  }
  \<close>
  Neither method rejects (each catches its own errors), so the \<open>catch\<close> handlers never
  run. The rest of the wrapper:
  \<^verbatim>\<open>
  const lockerCls = ScheduleLocker.locker;
  if (!lockerCls) { throw Error(`Cache lock '${name}' acquisition failed. ...`); }
  ... acquisition ...
  if (lockerFlag) {
    try { logger.Info(...); const res = await value.apply(this, props); return res; }
    catch (e) { return Promise.reject(e); }
    finally { if (lockerCls.unLock) { await lockerCls.unLock(name).catch(...); } }
  } else { logger.Warn(`Cache lock '${name}' acquisition failed. ...`); return; }
  \<close>
  \<open>ScheduleLocker.locker\<close> is \<open>None\<close> (null) or the locker instance. The wrapped method
  \<open>value\<close> is any operation on the process state that returns a value or throws.
  The result is \<open>Inl e\<close> when the wrapper rejects with \<open>e\<close>, \<open>Inr (Some v)\<close> when it
  returns the operation's \<open>v\<close>, and \<open>Inr None\<close> for the bare \<open>return\<close>.
\<close>

definition acquire ::
  "lock_args \<Rightarrow> wrap_env \<Rightarrow> state \<Rightarrow> (bool \<times> call_event \<times> state) option" where
  "acquire d we s =
     (if truthy (waitLockInterval d) \<or> truthy (waitLockTimeOut d) then
        map_option (\<lambda>(r, evs, s1). (r, CallWaitLock, s1))
          (waitLock (name d) (lockTimeOut d) (waitLockInterval d) (waitLockTimeOut d)
             (wait_envs we) s)
      else
        (case lock (name d) (lockTimeOut d) (lock_env we) s of
           (r, s1) \<Rightarrow> Some (r, CallLock, s1)))"

definition SchedulerLock_value ::
  "lock_args \<Rightarrow> (state \<Rightarrow> (js_error + 'a) \<times> state) \<Rightarrow> wrap_env \<Rightarrow> locker option \<times> world
     \<Rightarrow> ((js_error + 'a option) \<times> call_event list \<times> locker option \<times> world) option" where
  "SchedulerLock_value d value_fn we g =
     (case g of (lockerCls, w) \<Rightarrow>
        case lockerCls of
          None \<Rightarrow> Some (Inl (Error (not_executed (name d) (methodName d))), [], None, w)
        | Some L \<Rightarrow>
            (case acquire d we (L, w) of
               None \<Rightarrow> None
             | Some (lockerFlag, acq, L1, w1) \<Rightarrow>
                 if lockerFlag then
                   (case value_fn (L1, say (LogInfo (executed (name d))) w1) of
                      (res, s2) \<Rightarrow>
                        (case unLock (name d) (unlock_env we) s2 of
                           (u, L3, w3) \<Rightarrow>
                             Some (map_sum id Some res,
                                   [acq, CallValue, CallUnLock (name d)], Some L3, w3)))
                 else
                   Some (Inr None, [acq], Some L1,
                         say (LogWarn (not_executed (name d) (methodName d))) w1)))"

section \<open>Repeated calls of defineCommand\<close>

text \<open>
  The number of times the script was registered on a client is the number of
  \<open>Register\<close> events for its address. A world is consistent when a client carries the
  \<open>lua_unlock\<close> command exactly if it was registered once, and never more often.
\<close>

definition registered_once :: "world \<Rightarrow> bool" where
  "registered_once w =
     (\<forall>a. count_list (trace w) (Register a) = (if lua_unlock (clients w a) then 1 else 0))"

fun defineCommands :: "env list \<Rightarrow> state \<Rightarrow> state" where
  "defineCommands [] s = s"
| "defineCommands (e # es) s = defineCommands es (snd (defineCommand e s))"

section \<open>Example states and environments\<close>

definition client_fresh :: client_obj where
  "client_fresh = \<lparr>status = ''wait'', lua_unlock = False\<rparr>"

definition client_ready :: client_obj where
  "client_ready = \<lparr>status = ''ready'', lua_unlock = True\<rparr>"

definition env_ok :: env where
  "env_ok = \<lparr>conn = ConnReturns (Some (0, ''ready'')), define_err = None, rnd = (\<lambda>i. 171),
              fault = NoFault, elapse = 1, jitter = 0, interfere = (\<lambda>r. r)\<rparr>"

definition env_fault :: env where
  "env_fault = env_ok\<lparr>fault := FaultBefore ''ECONNRESET''\<rparr>"

definition env_down :: env where
  "env_down = env_ok\<lparr>conn := ConnThrows ''ECONNREFUSED''\<rparr>"

definition env_release :: env where
  "env_release = env_ok\<lparr>interfere := (\<lambda>r. r(''p:job'' := None))\<rparr>"

definition locker_ready :: locker where
  "locker_ready = \<lparr>lockMap = Map.empty, key_prefix = ''p:'', client = Some 0\<rparr>"

definition locker_new :: locker where
  "locker_new = \<lparr>lockMap = Map.empty, key_prefix = ''p:'', client = None\<rparr>"

definition locker_held :: locker where
  "locker_held = \<lparr>lockMap = [''p:job'' \<mapsto> \<lparr>ent_value = ''aa'', ent_expire = 10000, ent_time = 0\<rparr>],
                   key_prefix = ''p:'', client = Some 0\<rparr>"

definition world_new :: world where
  "world_new = \<lparr>redis = Map.empty, clients = (\<lambda>a. client_fresh), logger = [], now = 0, trace = []\<rparr>"

definition world_with :: "(string \<rightharpoonup> string \<times> int) \<Rightarrow> world" where
  "world_with r = \<lparr>redis = r, clients = (\<lambda>a. client_ready), logger = [], now = 0, trace = []\<rparr>"

definition args_once :: lock_args where
  "args_once = \<lparr>name = ''job'', methodName = ''run'', lockTimeOut = None,
                 waitLockInterval = None, waitLockTimeOut = None\<rparr>"

definition args_zero :: lock_args where
  "args_zero = args_once\<lparr>waitLockInterval := Some 0\<rparr>"

definition args_wait :: lock_args where
  "args_wait = args_once\<lparr>waitLockInterval := Some 50, waitLockTimeOut := Some 100\<rparr>"

definition wenv_ok :: wrap_env where
  "wenv_ok = \<lparr>lock_env = env_ok, wait_envs = [env_ok, env_ok, env_ok], unlock_env = env_ok\<rparr>"

definition op_ok :: "state \<Rightarrow> (js_error + nat) \<times> state" where
  "op_ok s = (Inr 7, s)"

definition wenv_unlock_fails :: wrap_env where
  "wenv_unlock_fails = wenv_ok\<lparr>unlock_env := env_fault\<rparr>"

definition op_throws :: "state \<Rightarrow> (js_error + nat) \<times> state" where
  "op_throws s = (Inl (Error ''boom''), s)"

lemmas fixtures = client_fresh_def client_ready_def env_ok_def env_fault_def env_down_def
  env_release_def locker_ready_def
  locker_new_def locker_held_def world_new_def world_with_def
  args_once_def args_zero_def args_wait_def wenv_ok_def wenv_unlock_fails_def
  op_ok_def op_throws_def

lemmas unfold_ops = unLock_def lock_def defineCommand_def say_def did_def tick_def Let_def
  lua_unlock_script_def redis_set_nx_px_def

section \<open>Facts about defineCommand\<close>

text \<open>
  Obtaining the client never touches the remote records, the local map, the prefix or
  the clock; it only adds \<open>Connect\<close> and \<open>Register\<close> events.
\<close>

lemma defineCommand_frame:
  assumes "defineCommand e (L, w) = (c, L', w')"
  shows "redis w' = redis w" "lockMap L' = lockMap L" "key_prefix L' = key_prefix L" "now w' = now w"
  using assms
  by (auto simp: defineCommand_def say_def did_def Let_def
        split: if_splits conn_outcome.splits option.splits prod.splits)

lemma defineCommand_trace:
  assumes "defineCommand e (L, w) = (c, L', w')"
  shows "\<exists>evs. trace w' = trace w @ evs \<and> set evs \<subseteq> insert Connect (range Register)"
  using assms
  by (auto simp: defineCommand_def say_def did_def Let_def
        split: if_splits conn_outcome.splits option.splits prod.splits)

lemma defineCommand_ready:
  assumes "client L = Some a" "status (clients w a) = ''ready''"
  shows "defineCommand e (L, w) = (Some a, L, w)"
  using assms by (simp add: defineCommand_def)

lemma defineCommand_connects:
  assumes "defineCommand e (L, w) = (c, L', w')"
  shows "Connect \<in> set (drop (length (trace w)) (trace w')) \<longleftrightarrow>
           client L = None \<or> status (clients w (the (client L))) \<noteq> ''ready''"
  using assms
  by (auto simp: defineCommand_def say_def did_def Let_def
        split: if_splits conn_outcome.splits option.splits prod.splits)

section \<open>Release: Locker.unLock\<close>

text \<open>
  Claim C1. A release call never deletes a remote record whose token differs from the
  token this process recorded for the key: if the store holds \<open>t\<close> at the prefixed key and
  the local entry (if any) carries another value, the remote records after \<open>unLock\<close> are
  those before it. Conversely, whenever \<open>unLock\<close> changes the remote records at all, the
  key was tracked locally, the store held exactly the local token, and the only change is
  the deletion of that key. This holds for every environment: connection failures, a
  missing script, and store errors before or after the script ran.
\<close>

theorem unLock_mismatch_keeps_store:
  assumes "unLock key e (L, w) = (res, L', w')"
  shows "(redis w (key_prefix L @ key) = Some (t, px) \<and>
          (\<forall>ent. lockMap L (key_prefix L @ key) = Some ent \<longrightarrow> ent_value ent \<noteq> t)
            \<longrightarrow> redis w' = redis w) \<and>
         (redis w' \<noteq> redis w \<longrightarrow>
            (\<exists>ent px'. lockMap L (key_prefix L @ key) = Some ent \<and>
               redis w (key_prefix L @ key) = Some (ent_value ent, px') \<and>
               redis w' = (redis w)(key_prefix L @ key := None)))"
proof -
  obtain c L1 w1 where dc: "defineCommand e (L, w) = (c, L1, w1)"
    by (cases "defineCommand e (L, w)") auto
  note fr = defineCommand_frame [OF dc]
  show ?thesis
    using assms fr
    by (auto simp: unLock_def dc Let_def say_def did_def tick_def lua_unlock_script_def
          split: option.splits if_splits cmd_fault.splits prod.splits)
qed

text \<open>
  The theorem at a concrete state: this process recorded \<open>aa\<close> for \<open>p:job\<close>, the store
  now holds \<open>bb\<close> written by another holder, and the release leaves that record in place.
\<close>

theorem unLock_mismatch_keeps_store_witness:
  "redis (snd (snd (unLock ''job'' env_ok
       (locker_held, world_with [''p:job'' \<mapsto> (''bb'', 10000)])))) ''p:job''
     = Some (''bb'', 10000)"
proof -
  obtain res L' w' where
    u: "unLock ''job'' env_ok (locker_held, world_with [''p:job'' \<mapsto> (''bb'', 10000)]) = (res, L', w')"
    by (cases "unLock ''job'' env_ok (locker_held, world_with [''p:job'' \<mapsto> (''bb'', 10000)])") auto
  have h: "redis (world_with [''p:job'' \<mapsto> (''bb'', 10000)]) (key_prefix locker_held @ ''job'')
             = Some (''bb'', 10000) \<and>
           (\<forall>ent. lockMap locker_held (key_prefix locker_held @ ''job'') = Some ent
              \<longrightarrow> ent_value ent \<noteq> ''bb'')"
    by (simp add: fixtures)
  from unLock_mismatch_keeps_store [OF u, of "''bb''" 10000] h
  have "redis w' = redis (world_with [''p:job'' \<mapsto> (''bb'', 10000)])"
    by blast
  then have "redis w' ''p:job'' = Some (''bb'', 10000)"
    by (simp add: world_with_def)
  then show ?thesis by (simp add: u)
qed

text \<open>
  Claim C2. The claim asks for a return value that tells the three outcomes of the atomic
  read-compare-delete apart, as the doc comment of \<open>unLock\<close> promises (0, 1, -1). The
  code discards the script's reply and returns \<open>true\<close>: below, the script replies 0
  (absent), 1 (deleted) and -1 (mismatch) on three stores, and \<open>unLock\<close> returns
  \<open>Some True\<close> on each.
\<close>

theorem unLock_true_for_all_outcomes:
  "fst (lua_unlock_script ''p:job'' ''aa'' Map.empty) = 0 \<and>
   fst (unLock ''job'' env_ok (locker_held, world_with Map.empty)) = Some True \<and>
   fst (lua_unlock_script ''p:job'' ''aa'' [''p:job'' \<mapsto> (''aa'', 10000)]) = 1 \<and>
   fst (unLock ''job'' env_ok (locker_held, world_with [''p:job'' \<mapsto> (''aa'', 10000)])) = Some True \<and>
   fst (lua_unlock_script ''p:job'' ''aa'' [''p:job'' \<mapsto> (''bb'', 10000)]) = - 1 \<and>
   fst (unLock ''job'' env_ok (locker_held, world_with [''p:job'' \<mapsto> (''bb'', 10000)])) = Some True"
  by (simp add: fixtures unfold_ops)

text \<open>
  Claim C3, as stated, fails: \<open>unLock\<close> awaits \<open>defineCommand\<close> before it looks at
  \<open>lockMap\<close>. On a new locker (no client yet) a release of a key that was never acquired
  returns \<open>null\<close> but has connected to the store and registered the script.
\<close>

theorem unLock_untracked_connects:
  "lockMap locker_new (key_prefix locker_new @ ''job'') = None \<and>
   fst (unLock ''job'' env_ok (locker_new, world_new)) = None \<and>
   trace world_new = [] \<and>
   trace (snd (snd (unLock ''job'' env_ok (locker_new, world_new)))) = [Connect, Register 0]"
  by (simp add: fixtures unfold_ops)

text \<open>
  Claim C3, amended. For a key with no local entry, \<open>unLock\<close> returns \<open>null\<close>, issues no
  command on the store (the remote records are unchanged; the only interactions it can add
  are a connection and a script registration, made by \<open>defineCommand\<close>), and leaves the
  local map as it was. When the locker already holds a ready client, there is no store
  interaction at all, and only then.
\<close>

theorem unLock_untracked:
  assumes "lockMap L (key_prefix L @ key) = None"
    and "unLock key e (L, w) = (res, L', w')"
  shows "res = None \<and> redis w' = redis w \<and> lockMap L' = lockMap L \<and>
         (\<exists>evs. trace w' = trace w @ evs \<and> set evs \<subseteq> insert Connect (range Register)) \<and>
         (trace w' = trace w \<longleftrightarrow> (\<exists>a. client L = Some a \<and> status (clients w a) = ''ready''))"
proof -
  obtain c L1 w1 where dc: "defineCommand e (L, w) = (c, L1, w1)"
    by (cases "defineCommand e (L, w)") auto
  note fr = defineCommand_frame [OF dc]
  from assms fr have r: "res = None" "L' = L1" "w' = tick (elapse e) w1"
    by (auto simp: unLock_def dc Let_def split: option.splits)
  have tr: "trace w' = trace w1" using r by (simp add: tick_def)
  have ext: "\<exists>evs. trace w' = trace w @ evs \<and> set evs \<subseteq> insert Connect (range Register)"
    using defineCommand_trace [OF dc] tr by simp
  have same: "trace w' = trace w" if "client L = Some a" "status (clients w a) = ''ready''" for a
    using defineCommand_ready [OF that, of e] dc tr by simp
  have diff: "trace w' \<noteq> trace w"
    if "client L = None \<or> status (clients w (the (client L))) \<noteq> ''ready''"
  proof
    assume "trace w' = trace w"
    then have "drop (length (trace w)) (trace w1) = []" using tr by simp
    with defineCommand_connects [OF dc] that show False by simp
  qed
  have "trace w' = trace w \<longleftrightarrow> (\<exists>a. client L = Some a \<and> status (clients w a) = ''ready'')"
  proof (cases "client L")
    case None
    with diff show ?thesis by simp
  next
    case (Some a)
    with same [of a] diff show ?thesis by auto
  qed
  with ext r fr show ?thesis by (simp add: tick_def)
qed

theorem unLock_untracked_witness:
  "fst (unLock ''other'' env_ok (locker_held, world_with Map.empty)) = None \<and>
   trace (snd (snd (unLock ''other'' env_ok (locker_held, world_with Map.empty)))) = []"
proof -
  obtain res L' w' where u: "unLock ''other'' env_ok (locker_held, world_with Map.empty) = (res, L', w')"
    by (cases "unLock ''other'' env_ok (locker_held, world_with Map.empty)") auto
  have h: "lockMap locker_held (key_prefix locker_held @ ''other'') = None"
    by (simp add: fixtures)
  have "\<exists>a. client locker_held = Some a \<and> status (clients (world_with Map.empty) a) = ''ready''"
    by (simp add: fixtures)
  with unLock_untracked [OF h u] have "res = None \<and> trace w' = trace (world_with Map.empty)"
    by blast
  then have "res = None \<and> trace w' = []" by (simp add: world_with_def)
  then show ?thesis by (simp add: u)
qed

text \<open>
  Claim C4, as stated, fails on the store-error path: \<open>lockMap.delete\<close> sits after the
  awaited script call inside the \<open>try\<close>, so an error skips it. Here the script call fails
  with a store error; \<open>unLock\<close> returns \<open>false\<close> and the entry is still in the map.
\<close>

theorem unLock_error_keeps_entry:
  "lockMap locker_held (key_prefix locker_held @ ''job'') \<noteq> None \<and>
   fst (unLock ''job'' env_fault (locker_held, world_with Map.empty)) = Some False \<and>
   lockMap (fst (snd (unLock ''job'' env_fault (locker_held, world_with Map.empty)))) ''p:job'' \<noteq> None"
  by (simp add: fixtures unfold_ops)

text \<open>
  Claim C4, amended. A release of a locally tracked key never raises: it returns \<open>true\<close>
  or \<open>false\<close>. It returns \<open>true\<close> exactly when the script call completed (a client was
  obtained, the script is defined on it, and the store reported no error), whatever the
  script replied (deleted, absent or mismatch), and then the local entry has been removed.
  Otherwise it returns \<open>false\<close>, one error has been logged, and the local map is unchanged.
\<close>

theorem unLock_tracked:
  assumes "lockMap L (key_prefix L @ key) = Some ent"
    and "unLock key e (L, w) = (res, L', w')"
    and "defineCommand e (L, w) = (c, L1, w1)"
  shows "(res = Some True \<or> res = Some False) \<and>
         (res = Some True \<longleftrightarrow>
            (\<exists>a. c = Some a \<and> lua_unlock (clients w1 a) \<and> fault e = NoFault)) \<and>
         (res = Some True \<longrightarrow> lockMap L' = (lockMap L)(key_prefix L @ key := None)) \<and>
         (res = Some False \<longrightarrow>
            lockMap L' = lockMap L \<and> (\<exists>m. logger w' = logger w1 @ [LogError m]))"
proof -
  note fr = defineCommand_frame [OF assms(3)]
  show ?thesis
    using assms(1,2) fr
    by (auto simp: unLock_def assms(3) Let_def say_def did_def tick_def
          split: option.splits if_splits cmd_fault.splits)
qed

theorem unLock_tracked_witness:
  "fst (unLock ''job'' env_ok (locker_held, world_with [''p:job'' \<mapsto> (''bb'', 10000)])) = Some True \<and>
   lockMap (fst (snd (unLock ''job'' env_ok
      (locker_held, world_with [''p:job'' \<mapsto> (''bb'', 10000)])))) ''p:job'' = None"
proof -
  let ?w = "world_with [''p:job'' \<mapsto> (''bb'', 10000)]"
  obtain res L' w' where u: "unLock ''job'' env_ok (locker_held, ?w) = (res, L', w')"
    by (cases "unLock ''job'' env_ok (locker_held, ?w)") auto
  have d: "defineCommand env_ok (locker_held, ?w) = (Some 0, locker_held, ?w)"
    by (rule defineCommand_ready) (simp_all add: fixtures)
  have h: "lockMap locker_held (key_prefix locker_held @ ''job'')
             = Some \<lparr>ent_value = ''aa'', ent_expire = 10000, ent_time = 0\<rparr>"
    by (simp add: fixtures)
  have ok: "\<exists>a. Some (0::nat) = Some a \<and> lua_unlock (clients ?w a) \<and> fault env_ok = NoFault"
    by (simp add: fixtures)
  from unLock_tracked [OF h u d] ok
  have "res = Some True \<and> lockMap L' = (lockMap locker_held)(key_prefix locker_held @ ''job'' := None)"
    by blast
  then have "res = Some True \<and> lockMap L' ''p:job'' = None"
    by (simp add: fixtures)
  then show ?thesis by (simp add: u)
qed

section \<open>Repeated calls of defineCommand register the script once\<close>

lemma registered_once_defineCommand:
  assumes "registered_once w" and "defineCommand e (L, w) = (c, L', w')"
  shows "registered_once w'"
  using assms
  unfolding registered_once_def
  by (auto simp: defineCommand_def say_def did_def Let_def
        split: if_splits conn_outcome.splits option.splits prod.splits)

lemma registered_once_defineCommands:
  assumes "registered_once (snd s)"
  shows "registered_once (snd (defineCommands es s))"
  using assms
proof (induction es arbitrary: s)
  case Nil
  then show ?case by simp
next
  case (Cons e es)
  obtain L w where s: "s = (L, w)" by (cases s)
  obtain c L' w' where d: "defineCommand e (L, w) = (c, L', w')"
    by (cases "defineCommand e (L, w)") auto
  from Cons.prems s d have "registered_once w'"
    by (auto intro: registered_once_defineCommand)
  with Cons.IH [of "(L', w')"] show ?case by (simp add: s d)
qed

lemma registered_once_le:
  "registered_once w \<Longrightarrow> count_list (trace w) (Register a) \<le> 1"
  by (simp add: registered_once_def)

lemma defineCommand_result:
  assumes "defineCommand e (L, w) = (Some a, L', w')"
  shows "client L' = Some a"
  using assms
  by (auto simp: defineCommand_def say_def did_def Let_def
        split: if_splits conn_outcome.splits option.splits prod.splits)

lemma defineCommand_registers:
  assumes "registered_once w" and "defineCommand e (L, w) = (Some a, L', w')"
    and "trace w' \<noteq> trace w"
  shows "lua_unlock (clients w' a) \<and> count_list (trace w') (Register a) = 1"
  using assms
  unfolding registered_once_def
  by (auto simp: defineCommand_def say_def did_def Let_def
        split: if_splits conn_outcome.splits option.splits prod.splits)

text \<open>
  Claim C9. In a world where every client carries \<open>lua_unlock\<close> exactly if the script
  was registered on it once (true of a fresh process), a call of \<open>defineCommand\<close>:
  returns the existing client with the locker and the world unchanged when that client is
  ready; connects to the store exactly when there is no client or it is not ready; when
  it returns a ready client, any further call returns the same client and changes nothing;
  when it connected and returns a client, the script is defined on that client and was
  registered on it exactly once; and after any number of further calls, in any
  environments, no client has the script registered more than once.
\<close>

theorem defineCommand_idempotent:
  assumes "registered_once w" and "defineCommand e (L, w) = (c, L', w')"
  shows "((\<exists>a. client L = Some a \<and> status (clients w a) = ''ready'') \<longrightarrow>
            c = client L \<and> L' = L \<and> w' = w) \<and>
         (Connect \<in> set (drop (length (trace w)) (trace w')) \<longleftrightarrow>
            client L = None \<or> status (clients w (the (client L))) \<noteq> ''ready'') \<and>
         (\<forall>a. c = Some a \<and> status (clients w' a) = ''ready'' \<longrightarrow>
            (\<forall>e'. defineCommand e' (L', w') = (c, L', w'))) \<and>
         (\<forall>a. c = Some a \<and> trace w' \<noteq> trace w \<longrightarrow>
            lua_unlock (clients w' a) \<and> count_list (trace w') (Register a) = 1) \<and>
         (\<forall>es a. count_list (trace (snd (defineCommands es (L', w')))) (Register a) \<le> 1)"
proof -
  have 1: "(\<exists>a. client L = Some a \<and> status (clients w a) = ''ready'') \<longrightarrow>
            c = client L \<and> L' = L \<and> w' = w"
    using assms(2) by (auto simp: defineCommand_ready)
  have 2: "Connect \<in> set (drop (length (trace w)) (trace w')) \<longleftrightarrow>
            client L = None \<or> status (clients w (the (client L))) \<noteq> ''ready''"
    by (rule defineCommand_connects [OF assms(2)])
  have 3: "\<forall>a. c = Some a \<and> status (clients w' a) = ''ready'' \<longrightarrow>
            (\<forall>e'. defineCommand e' (L', w') = (c, L', w'))"
    using assms(2) by (auto simp: defineCommand_ready dest: defineCommand_result)
  have 4: "\<forall>a. c = Some a \<and> trace w' \<noteq> trace w \<longrightarrow>
            lua_unlock (clients w' a) \<and> count_list (trace w') (Register a) = 1"
    using defineCommand_registers assms by blast
  have "registered_once w'"
    by (rule registered_once_defineCommand [OF assms])
  then have 5: "\<forall>es a. count_list (trace (snd (defineCommands es (L', w')))) (Register a) \<le> 1"
    using registered_once_defineCommands [of "(L', w')"] registered_once_le by simp
  from 1 2 3 4 5 show ?thesis by blast
qed

text \<open>
  The theorem on a new locker: the first call connects and registers the script on
  client 0; the second and third change nothing.
\<close>

theorem defineCommand_idempotent_witness:
  "trace (snd (defineCommands [env_ok, env_ok, env_ok] (locker_new, world_new))) = [Connect, Register 0] \<and>
   count_list (trace (snd (defineCommands [env_ok, env_ok, env_ok] (locker_new, world_new)))) (Register 0) = 1"
proof -
  have r: "registered_once world_new"
    by (simp add: registered_once_def fixtures)
  obtain c L' w' where d: "defineCommand env_ok (locker_new, world_new) = (c, L', w')"
    by (cases "defineCommand env_ok (locker_new, world_new)") auto
  then have c: "c = Some 0" "status (clients w' 0) = ''ready''" "trace w' = [Connect, Register 0]"
    by (auto simp: fixtures defineCommand_def did_def say_def Let_def)
  from defineCommand_idempotent [OF r d] c
  have i: "\<forall>e'. defineCommand e' (L', w') = (c, L', w')"
    by blast
  have "defineCommands [env_ok, env_ok, env_ok] (locker_new, world_new) = (L', w')"
    using d i by simp
  then show ?thesis using c by simp
qed

section \<open>Tokens are 128 bits, hex encoded\<close>

lemma hexdigit_inj:
  assumes "i < 16" "j < 16" "hexdigit i = hexdigit j"
  shows "i = j"
proof -
  have d: "distinct ''0123456789abcdef''" by simp
  have l: "length ''0123456789abcdef'' = 16" by simp
  from assms have "''0123456789abcdef'' ! i = ''0123456789abcdef'' ! j"
    by (simp add: hexdigit_def)
  with d l assms(1,2) show ?thesis
    by (metis nth_eq_iff_index_eq)
qed

lemma hex_of_byte_inj:
  assumes "hex_of_byte a = hex_of_byte b"
  shows "a = b"
proof -
  have a: "unat a < 256" using unsigned_less [of a, where ?'a = nat] by simp
  have b: "unat b < 256" using unsigned_less [of b, where ?'a = nat] by simp
  from assms have "hexdigit (unat a div 16) = hexdigit (unat b div 16)"
    and "hexdigit (unat a mod 16) = hexdigit (unat b mod 16)"
    by (simp_all add: hex_of_byte_def)
  with a b have "unat a div 16 = unat b div 16" "unat a mod 16 = unat b mod 16"
    by (auto intro!: hexdigit_inj)
  then have "unat a = unat b"
    by (metis div_mult_mod_eq)
  then show ?thesis by (simp add: word_unat_eq_iff)
qed

lemma length_toString_hex: "length (toString_hex bs) = 2 * length bs"
  by (induction bs) (simp_all add: toString_hex_def hex_of_byte_def)

lemma toString_hex_inj:
  "toString_hex xs = toString_hex ys \<Longrightarrow> xs = ys"
proof (induction xs arbitrary: ys)
  case Nil
  then have "length (toString_hex ys) = 0" by (simp add: toString_hex_def)
  then show ?case by (simp add: length_toString_hex)
next
  case (Cons x xs)
  show ?case
  proof (cases ys)
    case Nil
    with Cons.prems have "length (toString_hex (x # xs)) = 0" by (simp add: toString_hex_def)
    then show ?thesis by (simp add: length_toString_hex)
  next
    case (Cons y ys')
    with Cons.prems have "hex_of_byte x @ toString_hex xs = hex_of_byte y @ toString_hex ys'"
      by (simp add: toString_hex_def)
    moreover have "length (hex_of_byte x) = length (hex_of_byte y)"
      by (simp add: hex_of_byte_def)
    ultimately have "hex_of_byte x = hex_of_byte y" "toString_hex xs = toString_hex ys'"
      by simp_all
    with Cons.IH Cons show ?thesis by (simp add: hex_of_byte_inj)
  qed
qed

lemma length_randomBytes: "length (randomBytes r n) = n"
  by (simp add: randomBytes_def)

section \<open>Acquire: Locker.lock\<close>

text \<open>
  Claim C5, as stated, fails when no client can be obtained: \<open>defineCommand\<close> returns
  \<open>null\<close>, the call \<open>client.set\<close> raises before anything is sent, and the store receives
  no set operation at all (the call still returns \<open>false\<close> without raising).
\<close>

theorem lock_without_client_sends_nothing:
  "fst (lock ''job'' None env_down (locker_new, world_new)) = False \<and>
   trace (snd (snd (lock ''job'' None env_down (locker_new, world_new)))) = [Connect] \<and>
   redis (snd (snd (lock ''job'' None env_down (locker_new, world_new)))) ''p:job'' = None"
  by (simp add: fixtures unfold_ops null_call_def conn_failed_def)

text \<open>
  Claim C5, amended. Every \<open>lock\<close> call draws 16 fresh random bytes and uses their hex
  encoding as the token (32 characters; the encoding is injective, so the token carries all
  128 bits). It never raises. After obtaining the client it issues at most one
  set-if-absent-with-expiry command: exactly one when a client was obtained, none when not.
  It returns \<open>true\<close> exactly when a client was obtained, the store reported no error and the
  key was absent; then the store holds the token with the expiry and the local map holds
  the entry. In every other case it returns \<open>false\<close>, has logged one error and left the
  local map unchanged; in particular, when the key is present the store is unchanged and
  there is no second attempt. The expiry defaults to 10000.
\<close>

theorem lock_single_attempt:
  assumes "lock key expire e (L, w) = (r, L', w')"
    and "defineCommand e (L, w) = (c, L1, w1)"
  shows "let k = key_prefix L @ key;
             ttl = (case expire of None \<Rightarrow> 10000 | Some x \<Rightarrow> x);
             tok = toString_hex (randomBytes (rnd e) 16)
         in length tok = 32 \<and>
            (\<forall>bs. length bs = 16 \<and> toString_hex bs = tok \<longrightarrow> bs = randomBytes (rnd e) 16) \<and>
            trace w' = trace w1 @ (if c = None then [] else [SetNX k tok ttl]) \<and>
            (r \<longleftrightarrow> c \<noteq> None \<and> fault e = NoFault \<and> redis w k = None) \<and>
            (r \<longrightarrow> lockMap L' = (lockMap L)(k \<mapsto> \<lparr>ent_value = tok, ent_expire = ttl, ent_time = now w'\<rparr>) \<and>
                   redis w' = (redis w)(k \<mapsto> (tok, ttl))) \<and>
            (\<not> r \<longrightarrow> lockMap L' = lockMap L \<and> (\<exists>m. logger w' = logger w1 @ [LogError m])) \<and>
            (c \<noteq> None \<and> fault e = NoFault \<and> redis w k \<noteq> None \<longrightarrow>
               \<not> r \<and> redis w' = redis w \<and>
               logger w' = logger w1 @ [LogError ''lock error: key already exists''])"
proof -
  note fr = defineCommand_frame [OF assms(2)]
  note unf = lock_def assms(2) Let_def say_def did_def tick_def redis_set_nx_px_def
  have len: "length (toString_hex (randomBytes (rnd e) 16)) = 32"
    by (simp add: length_toString_hex length_randomBytes)
  have inj: "\<forall>bs. length bs = 16 \<and> toString_hex bs = toString_hex (randomBytes (rnd e) 16)
               \<longrightarrow> bs = randomBytes (rnd e) 16"
    by (auto dest: toString_hex_inj)
  have rest: "trace w' = trace w1 @ (if c = None then [] else
                 [SetNX (key_prefix L @ key) (toString_hex (randomBytes (rnd e) 16))
                    (case expire of None \<Rightarrow> 10000 | Some x \<Rightarrow> x)])"
    using assms(1) fr
    by (auto simp: unf split: option.splits cmd_fault.splits prod.splits)
  have r_iff: "r \<longleftrightarrow> c \<noteq> None \<and> fault e = NoFault \<and> redis w (key_prefix L @ key) = None"
    using assms(1) fr
    by (auto simp: unf split: option.splits cmd_fault.splits prod.splits)
  have ok: "r \<longrightarrow> lockMap L' = (lockMap L)(key_prefix L @ key \<mapsto>
               \<lparr>ent_value = toString_hex (randomBytes (rnd e) 16),
                ent_expire = (case expire of None \<Rightarrow> 10000 | Some x \<Rightarrow> x), ent_time = now w'\<rparr>) \<and>
             redis w' = (redis w)(key_prefix L @ key \<mapsto>
               (toString_hex (randomBytes (rnd e) 16), (case expire of None \<Rightarrow> 10000 | Some x \<Rightarrow> x)))"
    using assms(1) fr
    by (auto simp: unf split: option.splits cmd_fault.splits prod.splits)
  have ko: "\<not> r \<longrightarrow> lockMap L' = lockMap L \<and> (\<exists>m. logger w' = logger w1 @ [LogError m])"
    using assms(1) fr
    by (auto simp: unf split: option.splits cmd_fault.splits prod.splits)
  have present: "c \<noteq> None \<and> fault e = NoFault \<and> redis w (key_prefix L @ key) \<noteq> None \<longrightarrow>
               \<not> r \<and> redis w' = redis w \<and>
               logger w' = logger w1 @ [LogError ''lock error: key already exists'']"
    using assms(1) fr
    by (auto simp: unf split: option.splits cmd_fault.splits prod.splits)
  show ?thesis
    unfolding Let_def using len inj rest r_iff ok ko present by blast
qed

text \<open>
  The theorem on a new locker and an empty store: the call connects, registers the
  script, sends one set command, and succeeds.
\<close>

theorem lock_single_attempt_witness:
  "fst (lock ''job'' None env_ok (locker_new, world_new)) \<and>
   trace (snd (snd (lock ''job'' None env_ok (locker_new, world_new)))) =
     [Connect, Register 0, SetNX ''p:job'' (toString_hex (randomBytes (rnd env_ok) 16)) 10000] \<and>
   redis (snd (snd (lock ''job'' None env_ok (locker_new, world_new)))) ''p:job'' =
     Some (toString_hex (randomBytes (rnd env_ok) 16), 10000)"
proof -
  obtain r L' w' where l: "lock ''job'' None env_ok (locker_new, world_new) = (r, L', w')"
    by (cases "lock ''job'' None env_ok (locker_new, world_new)") auto
  obtain c L1 w1 where d: "defineCommand env_ok (locker_new, world_new) = (c, L1, w1)"
    by (cases "defineCommand env_ok (locker_new, world_new)") auto
  from d have c: "c = Some 0" "trace w1 = [Connect, Register 0]"
    by (auto simp: fixtures defineCommand_def did_def say_def Let_def)
  have h: "fault env_ok = NoFault" "redis world_new (key_prefix locker_new @ ''job'') = None"
    "key_prefix locker_new @ ''job'' = ''p:job''"
    by (simp_all add: fixtures)
  from lock_single_attempt [OF l d] c h
  have "r \<and> trace w' = [Connect, Register 0,
            SetNX ''p:job'' (toString_hex (randomBytes (rnd env_ok) 16)) 10000] \<and>
        redis w' = (redis world_new)(''p:job'' \<mapsto> (toString_hex (randomBytes (rnd env_ok) 16), 10000))"
    by (simp add: Let_def)
  then show ?thesis by (simp add: l)
qed

section \<open>Polling: Locker.waitLock\<close>

lemma lock_frame:
  assumes "lock key expire e (L, w) = (r, L', w')"
  shows "key_prefix L' = key_prefix L" "now w' = now w + int (elapse e)"
    "r \<Longrightarrow> lockMap L' (key_prefix L @ key) \<noteq> None"
proof -
  obtain c L1 w1 where dc: "defineCommand e (L, w) = (c, L1, w1)"
    by (cases "defineCommand e (L, w)") auto
  note fr = defineCommand_frame [OF dc]
  note unf = lock_def dc Let_def say_def did_def tick_def redis_set_nx_px_def
  show "key_prefix L' = key_prefix L"
    using assms fr by (auto simp: unf split: option.splits cmd_fault.splits prod.splits)
  show "now w' = now w + int (elapse e)"
    using assms fr by (auto simp: unf split: option.splits cmd_fault.splits prod.splits)
  show "lockMap L' (key_prefix L @ key) \<noteq> None" if r
    using assms fr that by (auto simp: unf split: option.splits cmd_fault.splits prod.splits)
qed

text \<open>
  What a successful \<open>lock\<close> call leaves behind: the set command is the last call on the
  store client, the store holds the token, and the local map holds the entry.
\<close>

lemma lock_success:
  assumes "lock key expire e (L, w) = (True, L', w')"
  shows "\<exists>tok ttl.
           trace w' \<noteq> [] \<and> last (trace w') = SetNX (key_prefix L @ key) tok ttl \<and>
           redis w (key_prefix L @ key) = None \<and>
           redis w' (key_prefix L @ key) = Some (tok, ttl) \<and>
           lockMap L' (key_prefix L @ key) =
             Some \<lparr>ent_value = tok, ent_expire = ttl, ent_time = now w'\<rparr>"
proof -
  obtain c L1 w1 where dc: "defineCommand e (L, w) = (c, L1, w1)"
    by (cases "defineCommand e (L, w)") auto
  note fr = defineCommand_frame [OF dc]
  note unf = lock_def dc Let_def say_def did_def tick_def redis_set_nx_px_def
  show ?thesis
    using assms fr by (auto simp: unf split: option.splits cmd_fault.splits prod.splits)
qed

lemma timer_ms_pos: "1 \<le> timer_ms ms"
  by (simp add: timer_ms_def)

lemma after_failed_prefix:
  "key_prefix (fst (after_failed key expire interval es s)) = key_prefix (fst s)"
proof (induction es arbitrary: s)
  case Nil
  then show ?case by simp
next
  case (Cons e es)
  obtain L w where s: "s = (L, w)" by (cases s)
  obtain b L1 w1 where l: "lock key expire e (L, w) = (b, L1, w1)"
    by (cases "lock key expire e (L, w)") auto
  from Cons.IH [of "(L1, delay interval e w1)"] lock_frame(1) [OF l]
  show ?case by (simp add: s l)
qed

text \<open>
  The loop returns when the clock moves: if every iteration (the attempt, the sleep and
  the timer's overshoot) takes at least \<open>d > 0\<close> milliseconds, then \<open>waitTime / d\<close>
  iterations are enough. A sleep takes at least one millisecond, so \<open>d = 1\<close> always
  qualifies.
\<close>

lemma waitLock_loop_returns:
  assumes "0 < d"
    and "\<forall>e\<in>set envs. d \<le> timer_ms interval + int (elapse e) + int (jitter e)"
    and "st + waitTime - now (snd s) \<le> d * int (length envs)"
  shows "waitLock_loop key expire interval waitTime st envs s \<noteq> None"
  using assms(2,3)
proof (induction envs arbitrary: s)
  case Nil
  then show ?case by simp
next
  case (Cons e es)
  obtain L w where s: "s = (L, w)" by (cases s)
  obtain r L1 w1 where l: "lock key expire e (L, w) = (r, L1, w1)"
    by (cases "lock key expire e (L, w)") auto
  show ?case
  proof (cases "now w - st < waitTime")
    case False
    then show ?thesis by (simp add: s)
  next
    case True
    show ?thesis
    proof (cases r)
      case True
      with \<open>now w - st < waitTime\<close> show ?thesis by (simp add: s l)
    next
      case False
      have adv: "now (delay interval e w1) = now w + int (elapse e) + timer_ms interval + int (jitter e)"
        using lock_frame(2) [OF l] by (simp add: delay_def)
      from Cons.prems(1) have "d \<le> timer_ms interval + int (elapse e) + int (jitter e)" by simp
      then have "now w + d \<le> now (delay interval e w1)"
        unfolding adv by linarith
      moreover from Cons.prems(2) have "st + waitTime - now w \<le> d * int (length es) + d"
        by (simp add: s algebra_simps)
      ultimately
      have "st + waitTime - now (snd (L1, delay interval e w1)) \<le> d * int (length es)"
        by simp
      moreover from Cons.prems(1)
      have "\<forall>e\<in>set es. d \<le> timer_ms interval + int (elapse e) + int (jitter e)" by simp
      ultimately have "waitLock_loop key expire interval waitTime st es (L1, delay interval e w1) \<noteq> None"
        by (rule Cons.IH [rotated])
      with True False show ?thesis by (auto simp: s l)
    qed
  qed
qed

lemma waitLock_loop_returns_one:
  assumes "st + waitTime - now (snd s) \<le> int (length envs)"
  shows "waitLock_loop key expire interval waitTime st envs s \<noteq> None"
proof (rule waitLock_loop_returns [where d = 1])
  show "(0::int) < 1" by simp
  show "\<forall>e\<in>set envs. 1 \<le> timer_ms interval + int (elapse e) + int (jitter e)"
    using timer_ms_pos [of interval] by auto
  show "st + waitTime - now (snd s) \<le> 1 * int (length envs)"
    using assms by simp
qed

text \<open>
  The run of the loop, attempt by attempt: the \<open>i\<close>-th attempt is the call of \<open>lock\<close>
  in the state reached after \<open>i\<close> failed attempts and sleeps.
\<close>

lemma waitLock_loop_run:
  assumes "waitLock_loop key expire interval waitTime st envs s = Some (r, evs, s')"
  shows "\<exists>n\<le>length envs.
           (\<forall>i<n. now (snd (after_failed key expire interval (take i envs) s)) - st < waitTime \<and>
                  \<not> fst (lock key expire (envs ! i)
                           (after_failed key expire interval (take i envs) s))) \<and>
           evs = concat (map (\<lambda>i. [Attempt (now (snd (after_failed key expire interval
                                                   (take i envs) s)) - st) False,
                                   Sleep interval]) [0..<n]) @
                 (if r then [Attempt (now (snd (after_failed key expire interval
                                                 (take n envs) s)) - st) True]
                  else []) \<and>
           (if r then
              n < length envs \<and>
              now (snd (after_failed key expire interval (take n envs) s)) - st < waitTime \<and>
              lock key expire (envs ! n) (after_failed key expire interval (take n envs) s)
                = (True, s')
            else
              waitTime \<le> now (snd (after_failed key expire interval (take n envs) s)) - st \<and>
              s' = timed_out (after_failed key expire interval (take n envs) s))"
    (is "\<exists>n\<le>length envs. ?P envs s evs n")
  using assms
proof (induction envs arbitrary: s evs)
  case Nil
  then have "evs = []" "\<not> r" "s' = timed_out s" "waitTime \<le> now (snd s) - st"
    by (auto split: if_splits)
  then have "?P [] s evs 0" by simp
  then show ?case by blast
next
  case (Cons e es)
  obtain L w where s: "s = (L, w)" by (cases s)
  obtain b L1 w1 where l: "lock key expire e (L, w) = (b, L1, w1)"
    by (cases "lock key expire e (L, w)") auto
  show ?case
  proof (cases "now w - st < waitTime")
    case False
    with Cons.prems have "evs = []" "\<not> r" "s' = timed_out s" by (auto simp: s)
    with False have "?P (e # es) s evs 0" by (simp add: s)
    then show ?thesis by blast
  next
    case True
    show ?thesis
    proof (cases b)
      case True
      with Cons.prems \<open>now w - st < waitTime\<close>
      have "evs = [Attempt (now w - st) True]" "r" "s' = (L1, w1)" by (auto simp: s l)
      with \<open>now w - st < waitTime\<close> True have "?P (e # es) s evs 0" by (simp add: s l)
      then show ?thesis by blast
    next
      case False
      let ?s1 = "(L1, delay interval e w1)"
      from False Cons.prems True obtain evs' where
        rec: "waitLock_loop key expire interval waitTime st es ?s1 = Some (r, evs', s')"
        and evs: "evs = Attempt (now w - st) False # Sleep interval # evs'"
        by (auto simp: s l)
      from Cons.IH [OF rec] obtain n where n: "n \<le> length es" and P: "?P es ?s1 evs' n"
        by blast
      have step: "after_failed key expire interval (take (Suc i) (e # es)) s =
                  after_failed key expire interval (take i es) ?s1" for i
        by (simp add: s l)
      have first: "now (snd (after_failed key expire interval (take 0 (e # es)) s)) - st < waitTime \<and>
                   \<not> fst (lock key expire ((e # es) ! 0)
                               (after_failed key expire interval (take 0 (e # es)) s))"
        using True False by (simp add: s l)
      have "?P (e # es) s evs (Suc n)"
        unfolding All_less_Suc2 map_upt_Suc step
        using P first evs n by (simp add: s)
      moreover have "Suc n \<le> length (e # es)" using n by simp
      ultimately show ?thesis by blast
    qed
  qed
qed

lemma waitLock_loop_outcome:
  assumes "waitLock_loop key expire interval waitTime st envs s = Some (r, evs, s')"
  shows "key_prefix (fst s') = key_prefix (fst s) \<and>
         (r \<longrightarrow> lockMap (fst s') (key_prefix (fst s) @ key) \<noteq> None)"
proof -
  from waitLock_loop_run [OF assms] obtain n where
    n: "if r then lock key expire (envs ! n) (after_failed key expire interval (take n envs) s)
                    = (True, s')
        else s' = timed_out (after_failed key expire interval (take n envs) s)"
    by (auto split: if_splits)
  let ?a = "after_failed key expire interval (take n envs) s"
  have p: "key_prefix (fst ?a) = key_prefix (fst s)" by (rule after_failed_prefix)
  show ?thesis
  proof (cases r)
    case True
    with n have l: "lock key expire (envs ! n) (fst ?a, snd ?a) = (True, fst s', snd s')" by simp
    from lock_frame(1,3) [OF l] p show ?thesis by simp
  next
    case False
    with n p show ?thesis by (simp add: timed_out_def split: prod.splits)
  qed
qed

text \<open>
  Claim C6, as stated, fails at the boundary: the loop runs while the elapsed time is
  below \<open>waitTime\<close>, so it gives up as soon as the elapsed time reaches \<open>waitTime\<close>, not
  only once it exceeds it. With \<open>waitTime = 0\<close> the elapsed time (0) does not exceed the
  limit, the lock is free (a single \<open>lock\<close> call would succeed), and yet \<open>waitLock\<close>
  returns \<open>false\<close> without a single attempt.
\<close>

theorem waitLock_zero_wait_no_attempt:
  "waitLock ''job'' None (Some 50) (Some 0) [env_ok, env_ok, env_ok] (locker_new, world_new) =
     Some (False, [], timed_out (locker_new, world_new)) \<and>
   \<not> 0 < now (snd (timed_out (locker_new, world_new))) - now world_new \<and>
   fst (lock ''job'' None env_ok (locker_new, world_new))"
  by (simp add: waitLock_def timed_out_def say_def fixtures unfold_ops)

text \<open>
  Claim C6, amended. An omitted interval is 50 and an omitted wait time 15000. \<open>waitLock\<close>
  returns: every sleep takes at least a millisecond, so \<open>waitTime\<close> iterations always
  suffice. Whenever it returns, there is a number \<open>n\<close> of failed attempts such that, with
  \<open>s\<^sub>i\<close> the state after \<open>i\<close> failed attempts each followed by the sleep of the interval:
  for every \<open>i < n\<close> the loop test found the elapsed time below \<open>waitTime\<close> in \<open>s\<^sub>i\<close> and
  the call of \<open>lock\<close> in \<open>s\<^sub>i\<close> returned \<open>false\<close>; the attempts and sleeps made are exactly
  these, plus the successful attempt if there is one. It returns \<open>true\<close> exactly when the
  call of \<open>lock\<close> in \<open>s\<^sub>n\<close>, made with the elapsed time still below \<open>waitTime\<close>, returned
  \<open>true\<close>; the final state is the one that call left (its set command is the last call
  on the store client, the store holds the token and the local map the entry), and no
  further attempt is made. It returns \<open>false\<close> exactly when the elapsed time in \<open>s\<^sub>n\<close>
  has reached or exceeded \<open>waitTime\<close>; the final state is \<open>s\<^sub>n\<close> with \<open>waitLock timeout\<close>
  logged.
\<close>

theorem waitLock_polls:
  "waitLock key expire iv wt envs s =
     waitLock key expire (Some (case iv of None \<Rightarrow> 50 | Some x \<Rightarrow> x))
       (Some (case wt of None \<Rightarrow> 15000 | Some x \<Rightarrow> x)) envs s \<and>
   (waitTime \<le> int (length envs) \<longrightarrow>
      waitLock key expire (Some interval) (Some waitTime) envs s \<noteq> None) \<and>
   (\<forall>r evs s'. waitLock key expire (Some interval) (Some waitTime) envs s = Some (r, evs, s') \<longrightarrow>
      (\<exists>n\<le>length envs.
         (\<forall>i<n. now (snd (after_failed key expire interval (take i envs) s)) - now (snd s) < waitTime \<and>
                \<not> fst (lock key expire (envs ! i)
                         (after_failed key expire interval (take i envs) s))) \<and>
         evs = concat (map (\<lambda>i. [Attempt (now (snd (after_failed key expire interval
                                                 (take i envs) s)) - now (snd s)) False,
                                 Sleep interval]) [0..<n]) @
               (if r then [Attempt (now (snd (after_failed key expire interval
                                               (take n envs) s)) - now (snd s)) True]
                else []) \<and>
         (if r then
            n < length envs \<and>
            now (snd (after_failed key expire interval (take n envs) s)) - now (snd s) < waitTime \<and>
            lock key expire (envs ! n) (after_failed key expire interval (take n envs) s)
              = (True, s') \<and>
            (\<exists>tok ttl.
               last (trace (snd s')) = SetNX (key_prefix (fst s) @ key) tok ttl \<and>
               redis (snd s') (key_prefix (fst s) @ key) = Some (tok, ttl) \<and>
               lockMap (fst s') (key_prefix (fst s) @ key) =
                 Some \<lparr>ent_value = tok, ent_expire = ttl, ent_time = now (snd s')\<rparr>)
          else
            waitTime \<le> now (snd (after_failed key expire interval (take n envs) s)) - now (snd s) \<and>
            s' = timed_out (after_failed key expire interval (take n envs) s) \<and>
            logger (snd s') =
              logger (snd (after_failed key expire interval (take n envs) s)) @
              [LogError ''waitLock timeout''])))"
proof -
  have 1: "waitLock key expire iv wt envs s =
     waitLock key expire (Some (case iv of None \<Rightarrow> 50 | Some x \<Rightarrow> x))
       (Some (case wt of None \<Rightarrow> 15000 | Some x \<Rightarrow> x)) envs s"
    by (simp add: waitLock_def)
  have 2: "waitTime \<le> int (length envs) \<longrightarrow>
      waitLock key expire (Some interval) (Some waitTime) envs s \<noteq> None"
    using waitLock_loop_returns_one [of "now (snd s)" waitTime s envs key expire interval]
    by (simp add: waitLock_def)
  have 3: "\<exists>n\<le>length envs.
         (\<forall>i<n. now (snd (after_failed key expire interval (take i envs) s)) - now (snd s) < waitTime \<and>
                \<not> fst (lock key expire (envs ! i)
                         (after_failed key expire interval (take i envs) s))) \<and>
         evs = concat (map (\<lambda>i. [Attempt (now (snd (after_failed key expire interval
                                                 (take i envs) s)) - now (snd s)) False,
                                 Sleep interval]) [0..<n]) @
               (if r then [Attempt (now (snd (after_failed key expire interval
                                               (take n envs) s)) - now (snd s)) True]
                else []) \<and>
         (if r then
            n < length envs \<and>
            now (snd (after_failed key expire interval (take n envs) s)) - now (snd s) < waitTime \<and>
            lock key expire (envs ! n) (after_failed key expire interval (take n envs) s)
              = (True, s') \<and>
            (\<exists>tok ttl.
               last (trace (snd s')) = SetNX (key_prefix (fst s) @ key) tok ttl \<and>
               redis (snd s') (key_prefix (fst s) @ key) = Some (tok, ttl) \<and>
               lockMap (fst s') (key_prefix (fst s) @ key) =
                 Some \<lparr>ent_value = tok, ent_expire = ttl, ent_time = now (snd s')\<rparr>)
          else
            waitTime \<le> now (snd (after_failed key expire interval (take n envs) s)) - now (snd s) \<and>
            s' = timed_out (after_failed key expire interval (take n envs) s) \<and>
            logger (snd s') =
              logger (snd (after_failed key expire interval (take n envs) s)) @
              [LogError ''waitLock timeout''])"
    (is "\<exists>m\<le>length envs. ?Q m")
    if w: "waitLock key expire (Some interval) (Some waitTime) envs s = Some (r, evs, s')"
    for r evs s'
  proof -
    from w have "waitLock_loop key expire interval waitTime (now (snd s)) envs s = Some (r, evs, s')"
      by (simp add: waitLock_def)
    from waitLock_loop_run [OF this] obtain n where n: "n \<le> length envs"
      and fails: "\<forall>i<n. now (snd (after_failed key expire interval (take i envs) s)) - now (snd s) < waitTime \<and>
                \<not> fst (lock key expire (envs ! i)
                         (after_failed key expire interval (take i envs) s))"
      and evs: "evs = concat (map (\<lambda>i. [Attempt (now (snd (after_failed key expire interval
                                                 (take i envs) s)) - now (snd s)) False,
                                 Sleep interval]) [0..<n]) @
               (if r then [Attempt (now (snd (after_failed key expire interval
                                               (take n envs) s)) - now (snd s)) True]
                else [])"
      and fin: "if r then
            n < length envs \<and>
            now (snd (after_failed key expire interval (take n envs) s)) - now (snd s) < waitTime \<and>
            lock key expire (envs ! n) (after_failed key expire interval (take n envs) s)
              = (True, s')
          else
            waitTime \<le> now (snd (after_failed key expire interval (take n envs) s)) - now (snd s) \<and>
            s' = timed_out (after_failed key expire interval (take n envs) s)"
      by blast
    let ?a = "after_failed key expire interval (take n envs) s"
    have p: "key_prefix (fst ?a) = key_prefix (fst s)" by (rule after_failed_prefix)
    have succ: "\<exists>tok ttl.
               last (trace (snd s')) = SetNX (key_prefix (fst s) @ key) tok ttl \<and>
               redis (snd s') (key_prefix (fst s) @ key) = Some (tok, ttl) \<and>
               lockMap (fst s') (key_prefix (fst s) @ key) =
                 Some \<lparr>ent_value = tok, ent_expire = ttl, ent_time = now (snd s')\<rparr>" if r
    proof -
      from fin that have "lock key expire (envs ! n) (fst ?a, snd ?a) = (True, fst s', snd s')"
        by simp
      from lock_success [OF this] p show ?thesis by auto
    qed
    have tout: "logger (snd s') = logger (snd ?a) @ [LogError ''waitLock timeout'']" if "\<not> r"
      using fin that by (simp add: timed_out_def say_def split: prod.splits)
    have "?Q n"
    proof (cases r)
      case True
      with fails evs fin succ show ?thesis by simp
    next
      case False
      with fails evs fin tout show ?thesis by simp
    qed
    with n show ?thesis by blast
  qed
  from 1 2 3 show ?thesis by blast
qed

text \<open>
  The theorem on a run where another holder keeps \<open>p:job\<close> and releases it during the
  first sleep: the first attempt fails, the process sleeps 50 ms, the second attempt, made
  after 51 ms, succeeds, and \<open>waitLock\<close> returns \<open>true\<close> at once. Two set commands were
  sent and the store holds this process's token.
\<close>

theorem waitLock_polls_witness:
  "waitLock ''job'' None (Some 50) (Some 3) [env_release, env_ok, env_ok]
     (locker_ready, world_with [''p:job'' \<mapsto> (''bb'', 10000)]) \<noteq> None \<and>
   (\<exists>s'. waitLock ''job'' None (Some 50) (Some 100) [env_release, env_ok, env_ok]
           (locker_ready, world_with [''p:job'' \<mapsto> (''bb'', 10000)]) =
         Some (True, [Attempt 0 False, Sleep 50, Attempt 51 True], s') \<and>
       trace (snd s') =
         [SetNX ''p:job'' (toString_hex (randomBytes (rnd env_ok) 16)) 10000,
          SetNX ''p:job'' (toString_hex (randomBytes (rnd env_ok) 16)) 10000] \<and>
       (\<exists>tok ttl. redis (snd s') ''p:job'' = Some (tok, ttl) \<and>
          lockMap (fst s') ''p:job'' =
            Some \<lparr>ent_value = tok, ent_expire = ttl, ent_time = now (snd s')\<rparr>))"
proof -
  let ?s = "(locker_ready, world_with [''p:job'' \<mapsto> (''bb'', 10000)])"
  let ?envs = "[env_release, env_ok, env_ok]"
  let ?W = "waitLock ''job'' None (Some 50) (Some 100) ?envs ?s"
  note P = waitLock_polls [of "''job''" None None None ?envs ?s 3 50]
  have "(3::int) \<le> int (length ?envs)" by simp
  with P have ret: "waitLock ''job'' None (Some 50) (Some 3) ?envs ?s \<noteq> None" by blast
  note Q = waitLock_polls [of "''job''" None None None ?envs ?s 100 50]
  have ev: "map_option (\<lambda>(r, evs, s). (r, evs, trace (snd s))) ?W =
              Some (True, [Attempt 0 False, Sleep 50, Attempt 51 True],
                [SetNX ''p:job'' (toString_hex (randomBytes (rnd env_ok) 16)) 10000,
                 SetNX ''p:job'' (toString_hex (randomBytes (rnd env_ok) 16)) 10000])"
    by (simp add: waitLock_def delay_def timer_ms_def timed_out_def fixtures unfold_ops)
  then obtain r evs s' where w: "?W = Some (r, evs, s')" by (cases ?W) auto
  with ev have r: "r" "evs = [Attempt 0 False, Sleep 50, Attempt 51 True]"
    "trace (snd s') = [SetNX ''p:job'' (toString_hex (randomBytes (rnd env_ok) 16)) 10000,
                 SetNX ''p:job'' (toString_hex (randomBytes (rnd env_ok) 16)) 10000]"
    by simp_all
  from Q [THEN conjunct2, THEN conjunct2, rule_format, OF w] r(1) have "\<exists>tok ttl.
               redis (snd s') (key_prefix (fst ?s) @ ''job'') = Some (tok, ttl) \<and>
               lockMap (fst s') (key_prefix (fst ?s) @ ''job'') =
                 Some \<lparr>ent_value = tok, ent_expire = ttl, ent_time = now (snd s')\<rparr>"
    by auto
  then have "\<exists>tok ttl. redis (snd s') ''p:job'' = Some (tok, ttl) \<and>
          lockMap (fst s') ''p:job'' =
            Some \<lparr>ent_value = tok, ent_expire = ttl, ent_time = now (snd s')\<rparr>"
    by (simp add: locker_ready_def)
  with w r ret show ?thesis by simp
qed

section \<open>The guarded method\<close>

lemma acquire_single:
  assumes "\<not> truthy (waitLockInterval d)" "\<not> truthy (waitLockTimeOut d)"
  shows "acquire d we s =
           Some (fst (lock (name d) (lockTimeOut d) (lock_env we) s), CallLock,
                 snd (lock (name d) (lockTimeOut d) (lock_env we) s))"
  using assms by (simp add: acquire_def split: prod.splits)

lemma acquire_event:
  assumes "acquire d we s = Some (r, acq, s1)"
  shows "acq = CallLock \<or> acq = CallWaitLock"
  using assms by (auto simp: acquire_def split: if_splits prod.splits)

lemma acquire_success:
  assumes "acquire d we (L, w) = Some (True, acq, L1, w1)"
  shows "key_prefix L1 = key_prefix L \<and> lockMap L1 (key_prefix L1 @ name d) \<noteq> None"
proof (cases "truthy (waitLockInterval d) \<or> truthy (waitLockTimeOut d)")
  case True
  with assms obtain evs where
    "waitLock (name d) (lockTimeOut d) (waitLockInterval d) (waitLockTimeOut d) (wait_envs we) (L, w)
       = Some (True, evs, L1, w1)"
    by (auto simp: acquire_def)
  then have "waitLock_loop (name d) (lockTimeOut d)
               (case waitLockInterval d of None \<Rightarrow> 50 | Some x \<Rightarrow> x)
               (case waitLockTimeOut d of None \<Rightarrow> 15000 | Some x \<Rightarrow> x)
               (now w) (wait_envs we) (L, w) = Some (True, evs, L1, w1)"
    by (simp add: waitLock_def)
  from waitLock_loop_outcome [OF this]
  have "key_prefix L1 = key_prefix L" "lockMap L1 (key_prefix L @ name d) \<noteq> None"
    by simp_all
  then show ?thesis by simp
next
  case False
  with assms have "lock (name d) (lockTimeOut d) (lock_env we) (L, w) = (True, L1, w1)"
    by (auto simp: acquire_def split: prod.splits)
  from lock_frame(1,3) [OF this]
  have "key_prefix L1 = key_prefix L" "lockMap L1 (key_prefix L @ name d) \<noteq> None"
    by simp_all
  then show ?thesis by simp
qed

text \<open>
  What \<open>unLock\<close> does on a key that is in the local map: the script call is sent exactly
  when a client carrying the script was obtained; the call returns \<open>true\<close> when the
  script call completed and \<open>false\<close>, with one error logged, otherwise.
\<close>

lemma unLock_effect:
  assumes "lockMap L (key_prefix L @ key) = Some ent"
    and "unLock key e (L, w) = (u, L', w')"
    and "defineCommand e (L, w) = (c, L1, w1)"
  shows "trace w' = trace w1 @
           (if \<exists>a. c = Some a \<and> lua_unlock (clients w1 a)
            then [LuaUnlock (key_prefix L @ key) (ent_value ent)] else [])"
    and "u = Some True \<or> u = Some False"
    and "u = Some True \<longleftrightarrow> (\<exists>a. c = Some a \<and> lua_unlock (clients w1 a) \<and> fault e = NoFault)"
    and "u = Some True \<Longrightarrow>
           lockMap L' (key_prefix L @ key) = None \<and> logger w' = logger w1 \<and>
           redis w' = snd (lua_unlock_script (key_prefix L @ key) (ent_value ent) (redis w))"
    and "u = Some False \<Longrightarrow> \<exists>m. logger w' = logger w1 @ [LogError m]"
proof -
  note fr = defineCommand_frame [OF assms(3)]
  note unf = unLock_def assms(3) Let_def say_def did_def tick_def
  show "trace w' = trace w1 @
           (if \<exists>a. c = Some a \<and> lua_unlock (clients w1 a)
            then [LuaUnlock (key_prefix L @ key) (ent_value ent)] else [])"
    using assms(1,2) fr by (auto simp: unf split: option.splits if_splits cmd_fault.splits)
  show "u = Some True \<or> u = Some False"
    using assms(1,2) fr by (auto simp: unf split: option.splits if_splits cmd_fault.splits)
  show "u = Some True \<longleftrightarrow> (\<exists>a. c = Some a \<and> lua_unlock (clients w1 a) \<and> fault e = NoFault)"
    using assms(1,2) fr by (auto simp: unf split: option.splits if_splits cmd_fault.splits)
  show "lockMap L' (key_prefix L @ key) = None \<and> logger w' = logger w1 \<and>
           redis w' = snd (lua_unlock_script (key_prefix L @ key) (ent_value ent) (redis w))"
    if "u = Some True"
    using assms(1,2) fr that by (auto simp: unf split: option.splits if_splits cmd_fault.splits)
  show "\<exists>m. logger w' = logger w1 @ [LogError m]" if "u = Some False"
    using assms(1,2) fr that by (auto simp: unf split: option.splits if_splits cmd_fault.splits)
qed

text \<open>
  Claim C7. When acquisition succeeded, the local map holds an entry for the lock name.
  The wrapper then runs the operation once and, whether the operation returned or raised,
  calls \<open>unLock\<close> on the lock name once, in the state the operation left; its result is the
  operation's value, or the very same error. If the entry is still in the local map when
  the operation ends, that release attempt obtains the client (which may connect and
  register the script, nothing else) and sends the release script for the key with the
  entry's token exactly once if a client carrying the script is available, and not at all
  otherwise: the number of release commands in the store trace grows by one for that key
  and token and by none for any other. The attempt returns \<open>true\<close> when the script call completed, and then the
  entry is gone and the store is what the script left; in every other case it returns
  \<open>false\<close> and has logged one error. Whatever the release did, the wrapper's result is
  still the operation's.
\<close>

theorem guarded_release:
  assumes "acquire d we (L, w) = Some (True, acq, L1, w1)"
    and "value_fn (L1, say (LogInfo (executed (name d))) w1) = (res, L2, w2)"
    and "unLock (name d) (unlock_env we) (L2, w2) = (u, L3, w3)"
  shows "lockMap L1 (key_prefix L1 @ name d) \<noteq> None \<and>
         SchedulerLock_value d value_fn we (Some L, w) =
           Some ((case res of Inl err \<Rightarrow> Inl err | Inr v \<Rightarrow> Inr (Some v)),
                 [acq, CallValue, CallUnLock (name d)], Some L3, w3) \<and>
         (acq = CallLock \<or> acq = CallWaitLock) \<and>
         (\<forall>ent c L2' w2'.
            lockMap L2 (key_prefix L2 @ name d) = Some ent \<and>
            defineCommand (unlock_env we) (L2, w2) = (c, L2', w2') \<longrightarrow>
              (\<exists>evs. trace w2' = trace w2 @ evs \<and>
                      set evs \<subseteq> insert Connect (range Register)) \<and>
              trace w3 = trace w2' @
                (if \<exists>a. c = Some a \<and> lua_unlock (clients w2' a)
                 then [LuaUnlock (key_prefix L2 @ name d) (ent_value ent)] else []) \<and>
              (u = Some True \<or> u = Some False) \<and>
              (u = Some True \<longleftrightarrow>
                 (\<exists>a. c = Some a \<and> lua_unlock (clients w2' a) \<and>
                      fault (unlock_env we) = NoFault)) \<and>
              (u = Some True \<longrightarrow>
                 lockMap L3 (key_prefix L2 @ name d) = None \<and> logger w3 = logger w2' \<and>
                 redis w3 = snd (lua_unlock_script (key_prefix L2 @ name d)
                                   (ent_value ent) (redis w2))) \<and>
              (u = Some False \<longrightarrow> (\<exists>m. logger w3 = logger w2' @ [LogError m])) \<and>
              (\<forall>k t. count_list (trace w3) (LuaUnlock k t) =
                 count_list (trace w2) (LuaUnlock k t) +
                 (if (\<exists>a. c = Some a \<and> lua_unlock (clients w2' a)) \<and>
                     k = key_prefix L2 @ name d \<and> t = ent_value ent
                  then 1 else 0)))"
proof -
  note u = assms(3)
  have ent: "lockMap L1 (key_prefix L1 @ name d) \<noteq> None"
    by (rule acquire_success [OF assms(1), THEN conjunct2])
  have a: "acq = CallLock \<or> acq = CallWaitLock"
    by (rule acquire_event [OF assms(1)])
  have "SchedulerLock_value d value_fn we (Some L, w) =
          Some (map_sum id Some res, [acq, CallValue, CallUnLock (name d)], Some L3, w3)"
    using assms by (simp add: SchedulerLock_value_def)
  moreover have "map_sum id Some res = (case res of Inl err \<Rightarrow> Inl err | Inr v \<Rightarrow> Inr (Some v))"
    by (cases res) simp_all
  ultimately have eq: "SchedulerLock_value d value_fn we (Some L, w) =
              Some ((case res of Inl err \<Rightarrow> Inl err | Inr v \<Rightarrow> Inr (Some v)),
                    [acq, CallValue, CallUnLock (name d)], Some L3, w3)"
    by simp
  have det: "(\<exists>evs. trace w2' = trace w2 @ evs \<and>
                         set evs \<subseteq> insert Connect (range Register)) \<and>
                 trace w3 = trace w2' @
                   (if \<exists>a. c = Some a \<and> lua_unlock (clients w2' a)
                    then [LuaUnlock (key_prefix L2 @ name d) (ent_value ent)] else []) \<and>
                 (u = Some True \<or> u = Some False) \<and>
                 (u = Some True \<longleftrightarrow>
                    (\<exists>a. c = Some a \<and> lua_unlock (clients w2' a) \<and>
                         fault (unlock_env we) = NoFault)) \<and>
                 (u = Some True \<longrightarrow>
                    lockMap L3 (key_prefix L2 @ name d) = None \<and> logger w3 = logger w2' \<and>
                    redis w3 = snd (lua_unlock_script (key_prefix L2 @ name d)
                                      (ent_value ent) (redis w2))) \<and>
                 (u = Some False \<longrightarrow> (\<exists>m. logger w3 = logger w2' @ [LogError m]))"
    if k: "lockMap L2 (key_prefix L2 @ name d) = Some ent"
      and dc: "defineCommand (unlock_env we) (L2, w2) = (c, L2', w2')"
    for ent c L2' w2'
    using defineCommand_trace [OF dc] unLock_effect [OF k u dc] by blast
  have cnt: "count_list (trace w3) (LuaUnlock k t) =
                 count_list (trace w2) (LuaUnlock k t) +
                 (if (\<exists>a. c = Some a \<and> lua_unlock (clients w2' a)) \<and>
                     k = key_prefix L2 @ name d \<and> t = ent_value ent
                  then 1 else 0)"
    if k: "lockMap L2 (key_prefix L2 @ name d) = Some ent"
      and dc: "defineCommand (unlock_env we) (L2, w2) = (c, L2', w2')"
    for ent c L2' w2' k t
  proof -
    from defineCommand_trace [OF dc] obtain evs where
      evs: "trace w2' = trace w2 @ evs" "set evs \<subseteq> insert Connect (range Register)"
      by blast
    then have "LuaUnlock k t \<notin> set evs" by auto
    then have z: "count_list evs (LuaUnlock k t) = 0" by (simp add: count_list_0_iff)
    from unLock_effect(1) [OF that(1) u dc] evs(1) z show ?thesis by auto
  qed
  from ent eq a det cnt show ?thesis by blast
qed

text \<open>
  The theorem on a run where the operation raises \<open>boom\<close> and the release then fails
  with a store error: the caller sees \<open>boom\<close>, the release script was sent once after
  the set command, and the release error is the last log line.
\<close>

theorem guarded_release_witness:
  "map_option (\<lambda>(r, evs, g). (r, evs, trace (snd g), last (logger (snd g))))
     (SchedulerLock_value args_once op_throws wenv_unlock_fails (Some locker_new, world_new)) =
   Some (Inl (Error ''boom''), [CallLock, CallValue, CallUnLock ''job''],
         [Connect, Register 0,
          SetNX ''p:job'' (toString_hex (randomBytes (rnd env_ok) 16)) 10000,
          LuaUnlock ''p:job'' (toString_hex (randomBytes (rnd env_ok) 16))],
         LogError ''ECONNRESET'')"
proof -
  let ?we = wenv_unlock_fails
  let ?tok = "toString_hex (randomBytes (rnd env_ok) 16)"
  have t: "\<not> truthy (waitLockInterval args_once)" "\<not> truthy (waitLockTimeOut args_once)"
    by (simp_all add: truthy_def args_once_def)
  obtain r L1 w1 where
    l: "lock (name args_once) (lockTimeOut args_once) (lock_env ?we) (locker_new, world_new) = (r, L1, w1)"
    by (cases "lock (name args_once) (lockTimeOut args_once) (lock_env ?we) (locker_new, world_new)") auto
  then have r: "r" and L1: "key_prefix L1 = ''p:''" "client L1 = Some 0"
    "\<exists>ent. lockMap L1 ''p:job'' = Some ent \<and> ent_value ent = ?tok"
    and w1: "status (clients w1 0) = ''ready''" "lua_unlock (clients w1 0)"
    "trace w1 = [Connect, Register 0, SetNX ''p:job'' ?tok 10000]"
    by (auto simp: fixtures unfold_ops split: if_splits)
  from L1(3) obtain ent where ent: "lockMap L1 ''p:job'' = Some ent" "ent_value ent = ?tok"
    by blast
  let ?w2 = "say (LogInfo (executed (name args_once))) w1"
  have a: "acquire args_once ?we (locker_new, world_new) = Some (True, CallLock, L1, w1)"
    using acquire_single [OF t, of ?we "(locker_new, world_new)"] l r by simp
  have v: "op_throws (L1, ?w2) = (Inl (Error ''boom''), L1, ?w2)"
    by (simp add: op_throws_def)
  obtain u L3 w3 where un: "unLock (name args_once) (unlock_env ?we) (L1, ?w2) = (u, L3, w3)"
    by (cases "unLock (name args_once) (unlock_env ?we) (L1, ?w2)") auto
  have k: "lockMap L1 (key_prefix L1 @ name args_once) = Some ent"
    using ent L1 by (simp add: args_once_def)
  have dc: "defineCommand (unlock_env ?we) (L1, ?w2) = (Some 0, L1, ?w2)"
    by (rule defineCommand_ready) (simp_all add: L1 w1 say_def)
  note G = guarded_release [where value_fn = op_throws, OF a v un]
  from G have eq: "SchedulerLock_value args_once op_throws ?we (Some locker_new, world_new) =
           Some (Inl (Error ''boom''), [CallLock, CallValue, CallUnLock (name args_once)], Some L3, w3)"
    by simp
  note B = G [THEN conjunct2, THEN conjunct2, THEN conjunct2, rule_format, OF conjI [OF k dc],
    THEN conjunct2, THEN conjunct1]
  from B w1(2) have tr: "trace w3 = trace ?w2 @ [LuaUnlock (key_prefix L1 @ name args_once) (ent_value ent)]"
    by (simp add: say_def)
  from un k dc w1(2) have lg: "last (logger w3) = LogError ''ECONNRESET''"
    by (auto simp: unLock_def Let_def say_def did_def tick_def fixtures
          split: option.splits if_splits)
  from eq tr lg ent(2) L1(1) w1(3) show ?thesis
    by (simp add: args_once_def say_def)
qed

text \<open>
  Claim C8, as stated, fails for a supplied interval or wait time of zero: the wrapper
  tests \<open>waitLockInterval || waitLockTimeOut\<close>, and \<open>0\<close> is falsy. With the interval
  supplied as \<open>0\<close> and no wait time, acquisition is a single \<open>lock\<close> call.
\<close>

theorem zero_interval_single_attempt:
  "waitLockInterval args_zero = Some 0 \<and>
   map_option (fst \<circ> snd) (acquire args_zero wenv_ok (locker_new, world_new)) = Some CallLock"
  by (simp add: acquire_def truthy_def args_zero_def args_once_def split: prod.splits)

text \<open>
  Claim C8, amended. If the interval or the wait time is supplied with a non-zero value,
  acquisition is the polling \<open>waitLock\<close> with the four arguments as given; otherwise
  (both omitted or zero) it is a single \<open>lock\<close> call. Whenever acquisition fails, the
  wrapper logs one warning that contains the lock name and the method name and returns
  (\<open>undefined\<close>, no error) without invoking the wrapped operation: the result does not
  depend on the operation and the only call the wrapper made is the acquisition.
\<close>

theorem guarded_acquisition:
  "(truthy (waitLockInterval d) \<or> truthy (waitLockTimeOut d) \<longrightarrow>
      acquire d we (L, w) =
        map_option (\<lambda>(r, evs, s1). (r, CallWaitLock, s1))
          (waitLock (name d) (lockTimeOut d) (waitLockInterval d) (waitLockTimeOut d)
             (wait_envs we) (L, w))) \<and>
   (\<not> truthy (waitLockInterval d) \<and> \<not> truthy (waitLockTimeOut d) \<longrightarrow>
      acquire d we (L, w) =
        Some (fst (lock (name d) (lockTimeOut d) (lock_env we) (L, w)), CallLock,
              snd (lock (name d) (lockTimeOut d) (lock_env we) (L, w)))) \<and>
   (\<forall>acq L1 w1. acquire d we (L, w) = Some (False, acq, L1, w1) \<longrightarrow>
      SchedulerLock_value d value_fn we (Some L, w) =
        Some (Inr None, [acq], Some L1,
              say (LogWarn (not_executed (name d) (methodName d))) w1)) \<and>
   (\<exists>a b c. not_executed (name d) (methodName d) = a @ name d @ b @ methodName d @ c)"
proof -
  have 1: "truthy (waitLockInterval d) \<or> truthy (waitLockTimeOut d) \<longrightarrow>
      acquire d we (L, w) =
        map_option (\<lambda>(r, evs, s1). (r, CallWaitLock, s1))
          (waitLock (name d) (lockTimeOut d) (waitLockInterval d) (waitLockTimeOut d)
             (wait_envs we) (L, w))"
    by (simp add: acquire_def)
  have 2: "\<not> truthy (waitLockInterval d) \<and> \<not> truthy (waitLockTimeOut d) \<longrightarrow>
      acquire d we (L, w) =
        Some (fst (lock (name d) (lockTimeOut d) (lock_env we) (L, w)), CallLock,
              snd (lock (name d) (lockTimeOut d) (lock_env we) (L, w)))"
    by (simp add: acquire_single)
  have 3: "\<forall>acq L1 w1. acquire d we (L, w) = Some (False, acq, L1, w1) \<longrightarrow>
      SchedulerLock_value d value_fn we (Some L, w) =
        Some (Inr None, [acq], Some L1,
              say (LogWarn (not_executed (name d) (methodName d))) w1)"
    by (simp add: SchedulerLock_value_def)
  have 4: "\<exists>a b c. not_executed (name d) (methodName d) = a @ name d @ b @ methodName d @ c"
    unfolding not_executed_def by (metis append.assoc)
  from 1 2 3 4 show ?thesis by blast
qed

text \<open>
  The theorem where another holder keeps \<open>p:job\<close>: the single attempt fails, the
  warning is logged after the engine's own error line, and the result is \<open>undefined\<close>.
\<close>

theorem guarded_acquisition_witness:
  "map_option (\<lambda>(r, evs, g). (r, evs, logger (snd g)))
     (SchedulerLock_value args_once op_ok wenv_ok
        (Some locker_held, world_with [''p:job'' \<mapsto> (''bb'', 10000)])) =
   Some (Inr None, [CallLock],
         [LogError ''lock error: key already exists'',
          LogWarn (not_executed ''job'' ''run'')])"
proof -
  let ?w = "world_with [''p:job'' \<mapsto> (''bb'', 10000)]"
  have t: "\<not> truthy (waitLockInterval args_once) \<and> \<not> truthy (waitLockTimeOut args_once)"
    by (simp add: truthy_def args_once_def)
  obtain r L1 w1 where l: "lock (name args_once) (lockTimeOut args_once) (lock_env wenv_ok) (locker_held, ?w) = (r, L1, w1)"
    by (cases "lock (name args_once) (lockTimeOut args_once) (lock_env wenv_ok) (locker_held, ?w)") auto
  then have r: "\<not> r" "logger w1 = [LogError ''lock error: key already exists'']"
    by (auto simp: fixtures unfold_ops split: if_splits)
  from guarded_acquisition [of args_once wenv_ok locker_held ?w op_ok] t l r(1)
  have "SchedulerLock_value args_once op_ok wenv_ok (Some locker_held, ?w) =
        Some (Inr None, [CallLock], Some L1,
              say (LogWarn (not_executed (name args_once) (methodName args_once))) w1)"
    by simp
  then show ?thesis using r(2) by (simp add: say_def args_once_def)
qed

text \<open>
  Claim C10. While \<open>ScheduleLocker.locker\<close> is null, the guarded method raises an
  \<open>Error\<close> to its caller: the wrapped operation is not invoked (the wrapper makes no
  call at all and the result does not depend on the operation), nothing is logged and the
  state is unchanged. This is a raised error, not the \<open>undefined\<close> returned on a skip.
\<close>

theorem uninitialized_locker_throws:
  "SchedulerLock_value d value_fn we (None, w) =
     Some (Inl (Error (not_executed (name d) (methodName d))), [], None, w)"
  by (simp add: SchedulerLock_value_def)

theorem uninitialized_locker_throws_witness:
  "SchedulerLock_value args_once op_ok wenv_ok (None, world_new) =
     Some (Inl (Error (not_executed ''job'' ''run'')), [], None, world_new)"
  using uninitialized_locker_throws [of args_once op_ok wenv_ok world_new]
  by (simp add: args_once_def)
end
